theory Spec2Isabelle
  imports Complex_Main
begin

section \<open>Python text conversions used by both programs\<close>

text \<open>
  Both programs exchange numbers through text: the recorder formats file names with
  f-strings and lets \<^verbatim>\<open>csv.writer\<close> stringify every field with \<^verbatim>\<open>str\<close>; the replay
  viewer and the participant scan read them back with \<^verbatim>\<open>int\<close>. Strings are byte lists,
  so the conversions below cover ASCII text: non-ASCII digits and spaces, which
  Python's \<^verbatim>\<open>int\<close> also accepts, and its limit on the number of digits are
  outside the model. Properties that depend on a text not being a number therefore ask
  for ASCII text (\<open>is_ascii\<close>).
\<close>

definition digit_char :: "nat \<Rightarrow> char" where
  "digit_char d = ''0123456789'' ! d"

fun str_nat :: "nat \<Rightarrow> string" where
  "str_nat n = (if n < 10 then [digit_char n] else str_nat (n div 10) @ [digit_char (n mod 10)])"

declare str_nat.simps [simp del]

definition str_int :: "int \<Rightarrow> string" where
  \<comment> \<open>\<^verbatim>\<open>str(i)\<close> for a Python int\<close>
  "str_int i = (if i < 0 then CHR ''-'' # str_nat (nat (- i)) else str_nat (nat i))"

definition is_digit :: "char \<Rightarrow> bool" where
  "is_digit c = (c \<in> set ''0123456789'')"

definition digit_val :: "char \<Rightarrow> nat" where
  "digit_val c = of_char c - 48"

definition py_isspace :: "char \<Rightarrow> bool" where
  \<comment> \<open>ASCII white space as \<^verbatim>\<open>int\<close> strips it: TAB, LF, VT, FF, CR and SPACE
      (the separators FS, GS, RS, US are not stripped and make the text invalid)\<close>
  "py_isspace c = ((of_char c :: nat) \<in> {9, 10, 11, 12, 13, 32})"

definition is_ascii :: "string \<Rightarrow> bool" where
  "is_ascii s = list_all (\<lambda>c. (of_char c :: nat) < 128) s"

definition py_strip :: "string \<Rightarrow> string" where
  "py_strip s = rev (dropWhile py_isspace (rev (dropWhile py_isspace s)))"

fun doubled_underscore :: "string \<Rightarrow> bool" where
  "doubled_underscore (a # b # cs) =
     ((a = CHR ''_'' \<and> b = CHR ''_'') \<or> doubled_underscore (b # cs))"
| "doubled_underscore _ = False"

definition py_digits :: "string \<Rightarrow> nat option" where
  \<comment> \<open>a decimal literal: digits, with single underscores allowed between digits only\<close>
  "py_digits s =
     (if s = [] then None
      else if list_all (\<lambda>c. is_digit c \<or> c = CHR ''_'') s
              \<and> hd s \<noteq> CHR ''_'' \<and> last s \<noteq> CHR ''_'' \<and> \<not> doubled_underscore s
      then Some (foldl (\<lambda>a c. 10 * a + digit_val c) 0 (filter is_digit s))
      else None)"

definition py_int :: "string \<Rightarrow> int option" where
  \<comment> \<open>\<^verbatim>\<open>int(s)\<close> for a string \<open>s\<close>; \<open>None\<close> stands for \<^verbatim>\<open>ValueError\<close>\<close>
  "py_int s =
     (case py_strip s of
        [] \<Rightarrow> None
      | c # r \<Rightarrow>
          if c = CHR ''-'' then map_option (\<lambda>n. - int n) (py_digits r)
          else if c = CHR ''+'' then map_option int (py_digits r)
          else map_option int (py_digits (c # r)))"

fun split_on :: "char \<Rightarrow> string \<Rightarrow> string list" where
  \<comment> \<open>\<^verbatim>\<open>s.split(sep)\<close> for a one-character separator\<close>
  "split_on sep [] = [[]]"
| "split_on sep (c # cs) =
     (if c = sep then [] # split_on sep cs
      else (case split_on sep cs of
              [] \<Rightarrow> [[c]]
            | p # ps \<Rightarrow> (c # p) # ps))"

section \<open>Participant auto-numbering (recorder)\<close>

definition glob_SHSA_csv :: "string \<Rightarrow> bool" where
  \<comment> \<open>the pattern \<^verbatim>\<open>SHSA_*.csv\<close> of \<^verbatim>\<open>data_dir.glob\<close> on a file name\<close>
  "glob_SHSA_csv name =
     (9 \<le> length name \<and> take 5 name = ''SHSA_'' \<and> drop (length name - 4) name = ''.csv'')"

definition stem :: "string \<Rightarrow> string" where
  \<comment> \<open>\<^verbatim>\<open>Path.stem\<close>: the name without its last suffix\<close>
  "stem name =
     (if CHR ''.'' \<notin> set name then name
      else let i = length name - length (takeWhile (\<lambda>c. c \<noteq> CHR ''.'') (rev name)) - 1
           in if 0 < i \<and> i < length name - 1 then take i name else name)"

definition participant_component :: "string \<Rightarrow> int option" where
  \<comment> \<open>the body of the \<^verbatim>\<open>try\<close>: \<open>Some n\<close> when a number is appended, \<open>None\<close> when
      the file is passed over (fewer than two parts, or \<^verbatim>\<open>ValueError\<close>)\<close>
  "participant_component file =
     (let parts = split_on (CHR ''_'') (stem file)
      in if 2 \<le> length parts then py_int (parts ! 1) else None)"

fun max_default :: "int list \<Rightarrow> int \<Rightarrow> int" where
  \<comment> \<open>\<^verbatim>\<open>max(xs, default=d)\<close>\<close>
  "max_default [] d = d"
| "max_default (x # xs) d = fold max xs x"

definition get_next_participant_number :: "string list \<Rightarrow> int" where
  \<comment> \<open>the argument is the listing of the trajectory directory\<close>
  "get_next_participant_number listing =
     (let existing_files = filter glob_SHSA_csv listing
      in if existing_files = [] then 1
         else max_default (List.map_filter participant_component existing_files) 0 + 1)"

definition record_name :: "int \<Rightarrow> int \<Rightarrow> string" where
  \<comment> \<open>\<^verbatim>\<open>f"SHSA_{participant_number}_{trial_number}.csv"\<close>\<close>
  "record_name p t = ''SHSA_'' @ str_int p @ ''_'' @ str_int t @ ''.csv''"

section \<open>Trajectory records and their storage\<close>

text \<open>
  A sample is the tuple \<^verbatim>\<open>(timestamp, x, y, event)\<close> appended by the motion handler.
  Python floats are idealised as reals: subtraction and comparison are exact. The text
  form of a float (\<^verbatim>\<open>str\<close> on writing, \<^verbatim>\<open>float\<close> on reading) belongs to the language,
  not to this repository, and is a parameter of the functions that use it.

  The trajectory directory is a map from file names to file contents. A file's content is
  what \<^verbatim>\<open>csv.reader\<close> makes of it when the file is read as UTF-8: the rows it yields,
  each a list of fields, and how the reading ends. \<open>Clean rows\<close> is a file that is read
  to its end; \<open>Faulty rows\<close> is a file on which the reader yields \<open>rows\<close> and then
  raises (\<^verbatim>\<open>UnicodeDecodeError\<close> on undecodable bytes, \<^verbatim>\<open>csv.Error\<close>), which can happen
  before the damaged line is reached, since the file is decoded in blocks. The recorder
  writes clean files. \<open>writable\<close> tells whether \<^verbatim>\<open>open(filepath, 'w')\<close> succeeds; an
  error in the middle of writing is not modelled. The directory itself exists: the
  constructor creates it.
\<close>

type_synonym sample = "real \<times> int \<times> int \<times> int"

type_synonym csv_rows = "string list list"

datatype csv_file = Clean csv_rows | Faulty csv_rows

record storage =
  files :: "string \<rightharpoonup> csv_file"
  writable :: "string \<Rightarrow> bool"

definition expected_header :: "string list" where
  "expected_header = [''Timestamp'', ''X'', ''Y'', ''Event'']"

fun sample_row :: "(real \<Rightarrow> string) \<Rightarrow> sample \<Rightarrow> string list" where
  \<comment> \<open>\<^verbatim>\<open>writer.writerow([timestamp, x, y, event])\<close>\<close>
  "sample_row float_str (timestamp, x, y, event) =
     [float_str timestamp, str_int x, str_int y, str_int event]"

section \<open>The recorder\<close>

record game =
  tracking :: bool
  mouse_positions :: "sample list"
  space_event :: int
  start_time :: real
  save_prompt :: bool
  next_participant :: bool
  participant_number :: int
  trial_number :: int
  max_trials :: int

definition init_game :: "string list \<Rightarrow> game" where
  \<comment> \<open>the state set up by \<^verbatim>\<open>__init__\<close>, given the listing of the trajectory directory\<close>
  "init_game listing =
     \<lparr>tracking = False, mouse_positions = [], space_event = 0, start_time = 0,
      save_prompt = False, next_participant = False,
      participant_number = get_next_participant_number listing,
      trial_number = 1, max_trials = 5\<rparr>"

definition save_trajectory_data :: "(real \<Rightarrow> string) \<Rightarrow> game \<Rightarrow> storage \<Rightarrow> bool \<times> storage" where
  "save_trajectory_data float_str g st =
     (if mouse_positions g = [] then (False, st)
      else let filename = record_name (participant_number g) (trial_number g)
           in if \<not> writable st filename then (False, st)
              else (True, st\<lparr>files := (files st)(filename \<mapsto>
                      Clean (expected_header # map (sample_row float_str) (mouse_positions g)))\<rparr>))"

datatype key = K_s | K_q | K_y | K_n | K_p | K_r | K_SPACE | K_ESCAPE | K_other

datatype event = QUIT | KEYDOWN key | KEYUP key | MOUSEMOTION "int \<times> int" | OTHER

definition handle_keydown ::
  "(real \<Rightarrow> string) \<Rightarrow> real \<Rightarrow> key \<Rightarrow> game \<Rightarrow> storage \<Rightarrow> bool \<times> game \<times> storage" where
  \<comment> \<open>\<open>now\<close> is the reading of \<^verbatim>\<open>time.time()\<close>; the first component is the return value\<close>
  "handle_keydown float_str now k g st =
     (if k = K_s \<and> \<not> next_participant g then
        (True, g\<lparr>tracking := True, start_time := now, mouse_positions := []\<rparr>, st)
      else if k = K_q then
        (True, g\<lparr>tracking := False, save_prompt := True\<rparr>, st)
      else if k = K_y \<and> save_prompt g then
        (case save_trajectory_data float_str g st of
           (True, st') \<Rightarrow>
             (let g1 = g\<lparr>trial_number := trial_number g + 1\<rparr>;
                  g2 = (if trial_number g1 > max_trials g1
                        then g1\<lparr>next_participant := True\<rparr> else g1)
              in (True, g2\<lparr>save_prompt := False\<rparr>, st'))
         | (False, st') \<Rightarrow> (True, g\<lparr>save_prompt := False\<rparr>, st'))
      else if k = K_n \<and> save_prompt g then
        (True, g\<lparr>save_prompt := False\<rparr>, st)
      else if k = K_y \<and> next_participant g then
        (True, g\<lparr>participant_number := participant_number g + 1, trial_number := 1,
                 next_participant := False\<rparr>, st)
      else if k = K_n \<and> next_participant g then
        (True, g\<lparr>next_participant := False\<rparr>, st)
      else if k = K_SPACE then
        (True, g\<lparr>space_event := 1\<rparr>, st)
      else if k = K_ESCAPE then
        (False, g, st)
      else (True, g, st))"

definition handle_keyup :: "key \<Rightarrow> game \<Rightarrow> game" where
  "handle_keyup k g = (if k = K_SPACE then g\<lparr>space_event := 0\<rparr> else g)"

definition handle_mouse_motion :: "real \<Rightarrow> int \<times> int \<Rightarrow> game \<Rightarrow> game" where
  "handle_mouse_motion now pos g =
     (if tracking g then
        (let (x, y) = pos; timestamp = now - start_time g
         in g\<lparr>mouse_positions := mouse_positions g @ [(timestamp, x, y, space_event g)]\<rparr>)
      else g)"

fun game_event ::
  "(real \<Rightarrow> string) \<Rightarrow> real \<times> event \<Rightarrow> bool \<times> game \<times> storage \<Rightarrow> bool \<times> game \<times> storage" where
  \<comment> \<open>the body of the \<^verbatim>\<open>for event in pygame.event.get()\<close> loop of \<^verbatim>\<open>run\<close>; every
      event comes with the clock reading at the moment it is handled\<close>
  "game_event float_str (now, QUIT) (running, g, st) = (False, g, st)"
| "game_event float_str (now, KEYDOWN k) (running, g, st) =
     (case handle_keydown float_str now k g st of
        (True, g', st') \<Rightarrow> (running, g', st')
      | (False, g', st') \<Rightarrow> (False, g', st'))"
| "game_event float_str (now, KEYUP k) (running, g, st) = (running, handle_keyup k g, st)"
| "game_event float_str (now, MOUSEMOTION pos) (running, g, st) =
     (running, handle_mouse_motion now pos g, st)"
| "game_event float_str (now, OTHER) (running, g, st) = (running, g, st)"

definition game_frame ::
  "(real \<Rightarrow> string) \<Rightarrow> (real \<times> event) list \<Rightarrow> bool \<times> game \<times> storage \<Rightarrow> bool \<times> game \<times> storage" where
  \<comment> \<open>one iteration of the main loop: all events of the frame, in order\<close>
  "game_frame float_str evs s = fold (game_event float_str) evs s"

fun game_run ::
  "(real \<Rightarrow> string) \<Rightarrow> (real \<times> event) list list \<Rightarrow> bool \<times> game \<times> storage \<Rightarrow> bool \<times> game \<times> storage" where
  \<comment> \<open>\<^verbatim>\<open>while running\<close>, over the frames of the recorded input\<close>
  "game_run float_str [] s = s"
| "game_run float_str (f # fs) (running, g, st) =
     (if running then game_run float_str fs (game_frame float_str f (running, g, st))
      else (running, g, st))"

definition trial_cycle :: "real \<Rightarrow> (real \<times> (int \<times> int)) list \<Rightarrow> (real \<times> event) list list" where
  \<comment> \<open>the input of one trial: start at \<open>t0\<close>, the pointer motions, stop, confirm\<close>
  "trial_cycle t0 motions =
     [[(t0, KEYDOWN K_s)], map (\<lambda>(t, pos). (t, MOUSEMOTION pos)) motions,
      [(t0, KEYDOWN K_q)], [(t0, KEYDOWN K_y)]]"

section \<open>The replay viewer\<close>

subsection \<open>Loading a record\<close>

datatype row_error = ValueError | IndexError

datatype warning = UnexpectedHeader "string list" | InvalidRow nat "string list"

datatype load_cause = StopIteration | NoValidData | ReaderError

datatype load_error = FileNotFound | LoadException load_cause

definition parse_row :: "(string \<Rightarrow> real option) \<Rightarrow> string list \<Rightarrow> row_error + sample" where
  \<comment> \<open>the body of the inner \<^verbatim>\<open>try\<close>, field by field in the order of the source;
      \<open>float_of\<close> is \<^verbatim>\<open>float\<close> on a string, \<open>None\<close> for its \<^verbatim>\<open>ValueError\<close>\<close>
  "parse_row float_of row =
     (if length row \<le> 0 then Inl IndexError
      else (case float_of (row ! 0) of
        None \<Rightarrow> Inl ValueError
      | Some timestamp \<Rightarrow>
         (if length row \<le> 1 then Inl IndexError
          else (case py_int (row ! 1) of
            None \<Rightarrow> Inl ValueError
          | Some x \<Rightarrow>
             (if length row \<le> 2 then Inl IndexError
              else (case py_int (row ! 2) of
                None \<Rightarrow> Inl ValueError
              | Some y \<Rightarrow>
                 (if length row \<le> 3 then Inl IndexError
                  else (case py_int (row ! 3) of
                    None \<Rightarrow> Inl ValueError
                  | Some event \<Rightarrow> Inr (timestamp, x, y, event)))))))))"

fun load_rows ::
  "(string \<Rightarrow> real option) \<Rightarrow> nat \<Rightarrow> csv_rows \<Rightarrow> sample list \<times> warning list
     \<Rightarrow> sample list \<times> warning list" where
  \<comment> \<open>the \<^verbatim>\<open>for row_num, row in enumerate(reader, start=2)\<close> loop, with the list
      \<^verbatim>\<open>events_data\<close> and the printed warnings as accumulators\<close>
  "load_rows float_of row_num [] (events_data, warnings) = (events_data, warnings)"
| "load_rows float_of row_num (row # rows) (events_data, warnings) =
     (case parse_row float_of row of
        Inr s \<Rightarrow> load_rows float_of (Suc row_num) rows (events_data @ [s], warnings)
      | Inl e \<Rightarrow>
          load_rows float_of (Suc row_num) rows (events_data, warnings @ [InvalidRow row_num row]))"

definition load_trial_data ::
  "(string \<Rightarrow> real option) \<Rightarrow> storage \<Rightarrow> string \<Rightarrow> warning list \<times> (load_error + sample list)" where
  \<comment> \<open>the warnings printed, and the list returned or the exception raised. An error of
      the reader arises in \<^verbatim>\<open>next(reader)\<close> or in the \<^verbatim>\<open>for\<close> statement, outside the
      inner \<^verbatim>\<open>try\<close>, after the rows before it went through the loop; like every
      exception but \<^verbatim>\<open>FileNotFoundError\<close> it leaves as the generic \<^verbatim>\<open>Exception\<close>\<close>
  "load_trial_data float_of st filepath =
     (case files st filepath of
        None \<Rightarrow> ([], Inl FileNotFound)
      | Some content \<Rightarrow>
          (let (read, fault) = (case content of Clean rows \<Rightarrow> (rows, False)
                                              | Faulty rows \<Rightarrow> (rows, True))
           in case read of
                [] \<Rightarrow> ([], Inl (LoadException (if fault then ReaderError else StopIteration)))
              | header # rows \<Rightarrow>
                  (let w0 = (if header \<noteq> expected_header then [UnexpectedHeader header] else []);
                       (events_data, warnings) = load_rows float_of 2 rows ([], w0)
                   in if fault then (warnings, Inl (LoadException ReaderError))
                      else if events_data = [] then (warnings, Inl (LoadException NoValidData))
                      else (warnings, Inr events_data))))"

subsection \<open>Playback\<close>

text \<open>
  What the viewer does to the outside is kept as a trace: line segments and circles drawn,
  calls of \<^verbatim>\<open>time.sleep\<close>, and \<^verbatim>\<open>pygame.display.flip\<close>. Status texts and the frame
  clock are left out. The record holds the two attributes of the viewer object together
  with the local variables of \<^verbatim>\<open>_replay_trial\<close>.
\<close>

datatype action = Line "int \<times> int" "int \<times> int" | Circle "int \<times> int" | Sleep real | Flip

record replay =
  is_paused :: bool
  spacebar_events :: "(int \<times> int) list"
  counter :: nat
  previous_position :: "int \<times> int"
  previous_timestamp :: real
  trace :: "action list"

fun replay_poll :: "event list \<Rightarrow> replay \<Rightarrow> int option \<times> replay" where
  \<comment> \<open>the event loop inside the replay loop; \<open>Some c\<close> is \<^verbatim>\<open>return c\<close>\<close>
  "replay_poll [] r = (None, r)"
| "replay_poll (QUIT # es) r = (Some (- 1), r)"
| "replay_poll (KEYDOWN k # es) r =
     (if k = K_p then replay_poll es (r\<lparr>is_paused := \<not> is_paused r\<rparr>)
      else if k = K_q then (Some (- 1), r)
      else if k = K_r then (Some 1, r)
      else replay_poll es r)"
| "replay_poll (e # es) r = replay_poll es r"

definition draw_trajectory_segment :: "int \<times> int \<Rightarrow> int \<times> int \<Rightarrow> action list" where
  "draw_trajectory_segment start_pos end_pos =
     (if start_pos \<noteq> (- 1, - 1) then [Line start_pos end_pos] else [])"

definition replay_advance :: "sample list \<Rightarrow> replay \<Rightarrow> replay" where
  \<comment> \<open>the block under \<^verbatim>\<open>if not self.is_paused\<close>; the loop guard keeps the index in range\<close>
  "replay_advance events_data r =
     (let (timestamp, x, y, spacebar_event) = events_data ! counter r;
          current_position = (x, y);
          segment = draw_trajectory_segment (previous_position r) current_position;
          marks = (if spacebar_event = 1 then spacebar_events r @ [current_position]
                   else spacebar_events r);
          delay = timestamp - previous_timestamp r;
          sleeps = (if counter r > 0 \<and> delay > 0 then [Sleep (min delay 0.1)] else [])
      in r\<lparr>spacebar_events := marks, previous_position := current_position,
            previous_timestamp := timestamp, counter := counter r + 1,
            trace := trace r @ segment @ map Circle marks @ sleeps\<rparr>)"

fun replay_loop ::
  "sample list \<Rightarrow> event list list \<Rightarrow> replay \<Rightarrow> int option \<times> replay \<times> event list list" where
  \<comment> \<open>\<^verbatim>\<open>while counter < len(events_data)\<close>, one frame of input per iteration. The result
      is the return value, the final state and the input left over; \<open>None\<close> means the
      loop is still running when the recorded input ends\<close>
  "replay_loop events_data [] r =
     (if counter r < length events_data then (None, r, [])
      else (Some 0, r\<lparr>trace := trace r @ [Flip]\<rparr>, []))"
| "replay_loop events_data (f # fs) r =
     (if counter r < length events_data then
        (case replay_poll f r of
           (Some c, r') \<Rightarrow> (Some c, r', fs)
         | (None, r') \<Rightarrow>
             (let r'' = (if \<not> is_paused r' then replay_advance events_data r' else r')
              in replay_loop events_data fs (r''\<lparr>trace := trace r'' @ [Flip]\<rparr>)))
      else (Some 0, r\<lparr>trace := trace r @ [Flip]\<rparr>, f # fs))"

definition replay_trial ::
  "(string \<Rightarrow> real option) \<Rightarrow> storage \<Rightarrow> string \<Rightarrow> event list list \<Rightarrow> replay
     \<Rightarrow> int option \<times> replay \<times> event list list" where
  "replay_trial float_of st filepath frames r =
     (case snd (load_trial_data float_of st filepath) of
        Inl e \<Rightarrow> (Some (- 1), r, frames)
      | Inr events_data \<Rightarrow>
          replay_loop events_data frames
            (r\<lparr>counter := 0, previous_position := (- 1, - 1), previous_timestamp := 0,
               spacebar_events := [], trace := trace r @ [Flip]\<rparr>))"

definition viewer_keydown_r ::
  "(string \<Rightarrow> real option) \<Rightarrow> storage \<Rightarrow> (int \<times> int) option \<Rightarrow> event list list \<Rightarrow> replay
     \<Rightarrow> bool \<times> replay \<times> event list list" where
  \<comment> \<open>the \<^verbatim>\<open>K_r\<close> branch of the viewer's \<^verbatim>\<open>run\<close>: \<open>sel\<close> is what
      \<^verbatim>\<open>_get_trial_selection\<close> returned, the first component of the result is
      \<^verbatim>\<open>running\<close>\<close>
  "viewer_keydown_r float_of st sel frames r =
     (case sel of
        None \<Rightarrow> (True, r, frames)
      | Some (participant_num, trial_num) \<Rightarrow>
          (let filepath = record_name participant_num trial_num
           in if files st filepath \<noteq> None then
                (case replay_trial float_of st filepath frames (r\<lparr>is_paused := True, trace := trace r @ [Flip]\<rparr>) of
                   (result, r', rest) \<Rightarrow> (result \<noteq> Some (- 1), r', rest))
              else (True, r, frames)))"

definition init_replay :: replay where
  \<comment> \<open>the viewer after \<^verbatim>\<open>__init__\<close> and the first screen of \<^verbatim>\<open>run\<close>\<close>
  "init_replay =
     \<lparr>is_paused = True, spacebar_events = [], counter = 0, previous_position = (- 1, - 1),
      previous_timestamp = 0, trace = [Flip]\<rparr>"

definition sleeps_of :: "action list \<Rightarrow> real list" where
  "sleeps_of tr = concat (map (\<lambda>a. case a of Sleep d \<Rightarrow> [d] | _ \<Rightarrow> []) tr)"

definition delta_step :: "sample list \<Rightarrow> nat \<Rightarrow> real list" where
  \<comment> \<open>the delay the specification asks for before sample \<open>k\<close> is shown: the difference
      to its predecessor's timestamp capped at 0.1, and none when it is not positive\<close>
  "delta_step events_data k =
     (let delta = fst (events_data ! k) - fst (events_data ! (k - 1))
      in if delta > 0 then [min delta 0.1] else [])"

definition capped_deltas :: "sample list \<Rightarrow> real list" where
  \<comment> \<open>the delays of a whole pass: one step for each sample after the first\<close>
  "capped_deltas events_data = concat (map (delta_step events_data) [1 ..< length events_data])"

section \<open>Concrete inputs\<close>

text \<open>
  A finite table stands in for Python's float formatting wherever a property is run on
  concrete data: it lists the text of the few timestamps that occur there.
\<close>

definition table_float_str :: "real \<Rightarrow> string" where
  "table_float_str t =
     (if t = 0 then ''0.0'' else if t = 1 / 20 then ''0.05'' else if t = 1 / 5 then ''0.2''
      else if t = 3 / 2 then ''1.5'' else ''nan'')"

definition table_float_of :: "string \<Rightarrow> real option" where
  "table_float_of s =
     (if s = ''0.0'' then Some 0 else if s = ''0.05'' then Some (1 / 20)
      else if s = ''0.2'' then Some (1 / 5) else if s = ''1.5'' then Some (3 / 2) else None)"

definition open_storage :: storage where
  \<comment> \<open>an empty, writable trajectory directory\<close>
  "open_storage = \<lparr>files = Map.empty, writable = (\<lambda>_. True)\<rparr>"

definition used_storage :: storage where
  \<comment> \<open>a writable directory that already holds the record of participant 1, trial 1\<close>
  "used_storage =
     \<lparr>files = [''SHSA_1_1.csv'' \<mapsto> Clean [expected_header, [''1.5'', ''7'', ''8'', ''0'']]],
      writable = (\<lambda>_. True)\<rparr>"

definition three_samples :: "sample list" where
  \<comment> \<open>the record with timestamps 0.0, 0.05 and 0.2\<close>
  "three_samples = [(0, 10, 10, 1), (1 / 20, 20, 20, 0), (1 / 5, 30, 30, 1)]"

definition recorded_game :: game where
  \<comment> \<open>the recorder of participant 1, trial 1, holding a record of three samples\<close>
  "recorded_game = (init_game [])\<lparr>mouse_positions := three_samples\<rparr>"


definition first_trial_done :: "bool \<times> game \<times> storage" where
  "first_trial_done =
     game_run table_float_str (trial_cycle 0 [(0, (10, 10)), (3 / 2, (20, 20))])
       (True, init_game [], open_storage)"

definition mixed_directory :: "((int \<times> int) + string) list" where
  "mixed_directory = [Inl (1, 1), Inr ''notes.txt'', Inl (3, 2), Inl (3, 5), Inr ''SHSA_abc.csv'', Inl (7, 1)]"



definition one_motion :: "(real \<times> (int \<times> int)) list" where
  "one_motion = [(0, (10, 10))]"

definition five_trials :: "(real \<times> event) list list" where
  \<comment> \<open>five trials in a row, each with one pointer motion\<close>
  "five_trials =
     trial_cycle 0 one_motion @ trial_cycle 0 one_motion @ trial_cycle 0 one_motion
       @ trial_cycle 0 one_motion @ trial_cycle 0 one_motion"

definition five_trials_done :: "bool \<times> game \<times> storage" where
  \<comment> \<open>a fresh recorder after five saved trials\<close>
  "five_trials_done = game_run table_float_str five_trials (True, init_game [], open_storage)"

definition five_trials_cancelled :: "bool \<times> game \<times> storage" where
  \<comment> \<open>a fresh recorder after five saved trials and the answer N to the advance prompt\<close>
  "five_trials_cancelled =
     game_run table_float_str (five_trials @ [[(0, KEYDOWN K_n)]]) (True, init_game [], open_storage)"

definition sixth_trial_done :: "bool \<times> game \<times> storage" where
  \<comment> \<open>one more trial after the cancelled advance prompt\<close>
  "sixth_trial_done = game_run table_float_str (trial_cycle 0 one_motion) five_trials_cancelled"

definition replay_store :: storage where
  \<comment> \<open>a directory holding the record of three samples as participant 1, trial 1\<close>
  "replay_store = snd (save_trajectory_data table_float_str recorded_game open_storage)"

definition play_through :: "event list list" where
  \<comment> \<open>the input of an uninterrupted playback: P in the first frame, then nothing\<close>
  "play_through = [[KEYDOWN K_p], [], [], []]"

definition play_then_restart :: "event list list" where
  \<comment> \<open>P in the first frame, R in the third\<close>
  "play_then_restart = [[KEYDOWN K_p], [], [KEYDOWN K_r], []]"

section \<open>Vocabulary of the properties\<close>

definition is_record_name :: "string \<Rightarrow> bool" where
  \<comment> \<open>the naming convention: the name is what the recorder's formatter produces for
      the participant and trial numbers read from it\<close>
  "is_record_name name =
     (case split_on (CHR ''_'') (stem name) of
        [a, b, c] \<Rightarrow>
          (case (py_int b, py_int c) of
             (Some p, Some t) \<Rightarrow> name = record_name p t
           | _ \<Rightarrow> False)
      | _ \<Rightarrow> False)"

fun entry_name :: "(int \<times> int) + string \<Rightarrow> string" where
  \<comment> \<open>a directory entry: the record of a participant and trial, or some other file\<close>
  "entry_name (Inl (p, t)) = record_name p t"
| "entry_name (Inr f) = f"

fun entry_participant :: "(int \<times> int) + string \<Rightarrow> int list" where
  "entry_participant (Inl (p, t)) = [p]"
| "entry_participant (Inr f) = []"

definition participants :: "((int \<times> int) + string) list \<Rightarrow> int list" where
  "participants entries = concat (map entry_participant entries)"

fun passed_over :: "(int \<times> int) + string \<Rightarrow> bool" where
  \<comment> \<open>the other files that the scan passes over: the pattern does not match, or the
      name is ASCII text whose participant component is not an integer\<close>
  "passed_over (Inl (p, t)) = True"
| "passed_over (Inr f) =
     (if glob_SHSA_csv f then is_ascii f \<and> participant_component f = None else True)"

definition recorded :: "real \<Rightarrow> int \<Rightarrow> (real \<times> (int \<times> int)) list \<Rightarrow> sample list" where
  "recorded t0 flag motions = map (\<lambda>(t, (x, y)). (t - t0, x, y, flag)) motions"

definition valid_rows :: "(string \<Rightarrow> real option) \<Rightarrow> csv_rows \<Rightarrow> sample list" where
  \<comment> \<open>the rows that pass validation, in file order\<close>
  "valid_rows float_of rows =
     List.map_filter (\<lambda>row. case parse_row float_of row of Inr s \<Rightarrow> Some s | Inl e \<Rightarrow> None) rows"

definition row_warnings :: "(string \<Rightarrow> real option) \<Rightarrow> nat \<Rightarrow> csv_rows \<Rightarrow> warning list" where
  \<comment> \<open>one warning for each malformed row, with its line number counted from \<open>n\<close>\<close>
  "row_warnings float_of n rows =
     concat (map (\<lambda>(i, row). case parse_row float_of row of
                                Inr s \<Rightarrow> [] | Inl e \<Rightarrow> [InvalidRow i row])
                 (enumerate n rows))"


definition position :: "sample \<Rightarrow> int \<times> int" where
  "position s = (case s of (timestamp, x, y, event) \<Rightarrow> (x, y))"

definition marks_upto :: "sample list \<Rightarrow> nat \<Rightarrow> (int \<times> int) list" where
  \<comment> \<open>the positions of the flagged samples among the first \<open>n\<close>\<close>
  "marks_upto events_data n =
     map position (filter (\<lambda>(timestamp, x, y, event). event = 1) (take n events_data))"

definition sample_actions :: "sample list \<Rightarrow> nat \<Rightarrow> action list" where
  \<comment> \<open>what showing sample \<open>k\<close> consists of, told from the record alone: the segment from
      the sample before it, the markers up to it, then the capped delay to the sample
      before it\<close>
  "sample_actions events_data k =
     draw_trajectory_segment
       (if k = 0 then (- 1, - 1) else position (events_data ! (k - 1))) (position (events_data ! k))
     @ map Circle (marks_upto events_data (Suc k))
     @ (if k = 0 then [] else map Sleep (delta_step events_data k))"

fun segments :: "action list \<Rightarrow> action list list" where
  \<comment> \<open>a trace cut at the flips: what is done between one flip of the display and the next\<close>
  "segments [] = []"
| "segments (a # tr) =
     (if a = Flip then [] # segments tr
      else (case segments tr of
              [] \<Rightarrow> [[a]]
            | s # ss \<Rightarrow> (a # s) # ss))"

definition toggles :: "event list \<Rightarrow> nat" where
  "toggles f = length (filter (\<lambda>e. e = KEYDOWN K_p) f)"

definition quiet :: "event list \<Rightarrow> bool" where
  \<comment> \<open>a frame without window close, Q or R\<close>
  "quiet f = list_all (\<lambda>e. e \<noteq> QUIT \<and> e \<noteq> KEYDOWN K_q \<and> e \<noteq> KEYDOWN K_r) f"

definition next_paused :: "bool \<Rightarrow> event list \<Rightarrow> bool" where
  \<comment> \<open>the pause flag after the P presses of a frame\<close>
  "next_paused p f = (if even (toggles f) then p else \<not> p)"

fun playing :: "bool \<Rightarrow> event list list \<Rightarrow> nat" where
  \<comment> \<open>the number of frames in which the playback is not paused\<close>
  "playing p [] = 0"
| "playing p (f # fs) =
     (if next_paused p f then playing True fs else Suc (playing False fs))"

definition at_sample :: "sample list \<Rightarrow> replay \<Rightarrow> bool" where
  \<comment> \<open>the local variables of the replay loop agree with the record at the cursor\<close>
  "at_sample events_data r =
     (previous_position r
        = (if counter r = 0 then (- 1, - 1) else position (events_data ! (counter r - 1)))
      \<and> (counter r > 0 \<longrightarrow> previous_timestamp r = fst (events_data ! (counter r - 1)))
      \<and> spacebar_events r = marks_upto events_data (counter r))"

section \<open>Text conversions: what is written is read back\<close>

lemma digit_char_facts:
  assumes "d < 10"
  shows "is_digit (digit_char d)" and "digit_val (digit_char d) = d"
    and "digit_char d \<noteq> CHR ''_''" and "digit_char d \<noteq> CHR ''-''"
    and "digit_char d \<noteq> CHR ''+''" and "\<not> py_isspace (digit_char d)"
proof -
  from assms have d: "d \<in> {0, 1, 2, 3, 4, 5, 6, 7, 8, 9}" by auto
  from d show "is_digit (digit_char d)"
    by (auto simp: digit_char_def is_digit_def)
  from d show "digit_val (digit_char d) = d"
    by (auto simp: digit_char_def digit_val_def)
  from d show "digit_char d \<noteq> CHR ''_''" "digit_char d \<noteq> CHR ''-''" "digit_char d \<noteq> CHR ''+''"
    by (auto simp: digit_char_def)
  from d show "\<not> py_isspace (digit_char d)"
    by (auto simp: digit_char_def py_isspace_def)
qed

lemma is_digit_facts:
  assumes "is_digit c"
  shows "c \<noteq> CHR ''_''" and "c \<noteq> CHR ''-''" and "c \<noteq> CHR ''+''" and "\<not> py_isspace c" and "c \<noteq> CHR ''.''"
  using assms by (auto simp: is_digit_def py_isspace_def)

lemma str_nat_nonempty: "str_nat n \<noteq> []"
  by (subst str_nat.simps) simp

lemma str_nat_digits: "list_all is_digit (str_nat n)"
proof (induction n rule: str_nat.induct)
  case (1 n)
  show ?case
  proof (cases "n < 10")
    case True
    then show ?thesis by (subst str_nat.simps) (simp add: digit_char_facts)
  next
    case False
    with 1 show ?thesis by (subst str_nat.simps) (simp add: digit_char_facts)
  qed
qed

lemma str_nat_value: "foldl (\<lambda>a c. 10 * a + digit_val c) 0 (str_nat n) = n"
proof (induction n rule: str_nat.induct)
  case (1 n)
  show ?case
  proof (cases "n < 10")
    case True
    then show ?thesis by (subst str_nat.simps) (simp add: digit_char_facts)
  next
    case False
    with 1 show ?thesis by (subst str_nat.simps) (simp add: digit_char_facts)
  qed
qed

lemma no_doubled_underscore: "list_all (\<lambda>c. c \<noteq> CHR ''_'') s \<Longrightarrow> \<not> doubled_underscore s"
  by (induction s rule: doubled_underscore.induct) auto

lemma py_digits_str_nat: "py_digits (str_nat n) = Some n"
proof -
  let ?s = "str_nat n"
  have ne: "?s \<noteq> []" by (rule str_nat_nonempty)
  have dg: "list_all is_digit ?s" by (rule str_nat_digits)
  then have all: "\<forall>c \<in> set ?s. is_digit c" by (simp add: list_all_iff)
  have "hd ?s \<in> set ?s" "last ?s \<in> set ?s" using ne by simp_all
  with all have h: "hd ?s \<noteq> CHR ''_''" and l: "last ?s \<noteq> CHR ''_''"
    using is_digit_facts(1) by blast+
  have nd: "\<not> doubled_underscore ?s"
    using all by (intro no_doubled_underscore) (auto simp: list_all_iff dest: is_digit_facts(1))
  have ok: "list_all (\<lambda>c. is_digit c \<or> c = CHR ''_'') ?s"
    using all by (simp add: list_all_iff)
  have flt: "filter is_digit ?s = ?s" using all by simp
  show ?thesis
    unfolding py_digits_def using ne h l nd ok by (simp add: flt str_nat_value)
qed

lemma py_strip_id:
  assumes "s \<noteq> []" "\<not> py_isspace (hd s)" "\<not> py_isspace (last s)"
  shows "py_strip s = s"
proof -
  from assms have a: "dropWhile py_isspace s = s" by (cases s) simp_all
  from assms have "rev s \<noteq> []" "\<not> py_isspace (hd (rev s))" by (simp_all add: hd_rev)
  then have "dropWhile py_isspace (rev s) = rev s" by (cases "rev s") simp_all
  with a show ?thesis by (simp add: py_strip_def)
qed

lemma py_int_str_int: "py_int (str_int i) = Some i"
proof -
  define n where "n = (if i < 0 then nat (- i) else nat i)"
  define s where "s = str_nat n"
  have ne: "s \<noteq> []" unfolding s_def by (rule str_nat_nonempty)
  have all: "\<forall>c \<in> set s. is_digit c"
    unfolding s_def using str_nat_digits [of n] by (simp add: list_all_iff)
  have "hd s \<in> set s" "last s \<in> set s" using ne by simp_all
  with all have hd: "is_digit (hd s)" and lst: "is_digit (last s)" by blast+
  have sp: "\<not> py_isspace (hd s)" "\<not> py_isspace (last s)"
    using hd lst by (simp_all add: is_digit_facts)
  have dg: "py_digits s = Some n" unfolding s_def by (rule py_digits_str_nat)
  show ?thesis
  proof (cases "i < 0")
    case True
    then have eq: "str_int i = CHR ''-'' # s" by (simp add: str_int_def s_def n_def)
    have m: "\<not> py_isspace (CHR ''-'')" by (simp add: py_isspace_def)
    have "py_strip (CHR ''-'' # s) = CHR ''-'' # s"
      using ne sp m by (intro py_strip_id) simp_all
    moreover have "- int n = i" using True by (simp add: n_def)
    ultimately show ?thesis by (simp add: py_int_def eq dg)
  next
    case False
    then have eq: "str_int i = s" by (simp add: str_int_def s_def n_def)
    have st: "py_strip s = s" using ne sp by (intro py_strip_id)
    obtain c r where cr: "s = c # r" using ne by (cases s) auto
    with hd have "c \<noteq> CHR ''-''" "c \<noteq> CHR ''+''" by (auto dest: is_digit_facts)
    moreover have "int n = i" using False by (simp add: n_def)
    ultimately show ?thesis unfolding py_int_def eq st using cr dg by simp
  qed
qed

lemma str_int_chars: "c \<in> set (str_int i) \<Longrightarrow> is_digit c \<or> c = CHR ''-''"
  using str_nat_digits [of "nat (- i)"] str_nat_digits [of "nat i"]
  by (auto simp: str_int_def list_all_iff split: if_splits)

lemma str_int_no_underscore: "CHR ''_'' \<notin> set (str_int i)"
  using str_int_chars [of "CHR ''_''" i] by (auto dest: is_digit_facts)

lemma split_on_nonempty: "split_on c s \<noteq> []"
  by (induction s) (auto split: list.splits)

lemma split_on_first: "c \<notin> set a \<Longrightarrow> split_on c (a @ c # b) = a # split_on c b"
  by (induction a) (auto split: list.splits)

lemma stem_csv: "xs \<noteq> [] \<Longrightarrow> stem (xs @ ''.csv'') = xs"
  by (simp add: stem_def Let_def)

lemma glob_record: "glob_SHSA_csv (''SHSA_'' @ mid @ ''.csv'')"
  by (simp add: glob_SHSA_csv_def)

lemma participant_component_record:
  "participant_component (''SHSA_'' @ str_int p @ CHR ''_'' # rest @ ''.csv'') = Some p"
proof -
  have "stem ((''SHSA_'' @ str_int p @ CHR ''_'' # rest) @ ''.csv'') = ''SHSA_'' @ str_int p @ CHR ''_'' # rest"
    by (rule stem_csv) simp
  then have st: "stem (''SHSA_'' @ str_int p @ CHR ''_'' # rest @ ''.csv'') = ''SHSA_'' @ str_int p @ CHR ''_'' # rest"
    by simp
  have "split_on (CHR ''_'') (''SHSA'' @ CHR ''_'' # (str_int p @ CHR ''_'' # rest))
        = ''SHSA'' # split_on (CHR ''_'') (str_int p @ CHR ''_'' # rest)"
    by (rule split_on_first) simp
  also have "split_on (CHR ''_'') (str_int p @ CHR ''_'' # rest) = str_int p # split_on (CHR ''_'') rest"
    by (rule split_on_first) (rule str_int_no_underscore)
  finally have sp: "split_on (CHR ''_'') (''SHSA_'' @ str_int p @ CHR ''_'' # rest)
        = ''SHSA'' # str_int p # split_on (CHR ''_'') rest" by simp
  show ?thesis
    unfolding participant_component_def st sp by (simp add: py_int_str_int)
qed

lemma max_default_Max: "max_default xs d = Max (set xs)" if "xs \<noteq> []"
proof (cases xs)
  case Nil
  with that show ?thesis by simp
next
  case (Cons a list)
  then show ?thesis using Max.set_eq_fold [of a list] by simp
qed

section \<open>Facts about the concrete inputs\<close>

lemma record_name_1_1: "record_name 1 1 = ''SHSA_1_1.csv''"
  by code_simp

lemma recorded_game_simps:
  "mouse_positions recorded_game = three_samples"
  "participant_number recorded_game = 1"
  "trial_number recorded_game = 1"
  by (simp_all add: recorded_game_def init_game_def get_next_participant_number_def)

lemma next_participant_number_empty: "get_next_participant_number [] = 1"
  by (simp add: get_next_participant_number_def)

lemma first_trial_done_eq:
  "first_trial_done =
     (True,
      \<lparr>tracking = False, mouse_positions = [(0, 10, 10, 0), (3 / 2, 20, 20, 0)],
       space_event = 0, start_time = 0, save_prompt = False, next_participant = False,
       participant_number = 1, trial_number = 2, max_trials = 5\<rparr>,
      \<lparr>files = [''SHSA_1_1.csv'' \<mapsto>
                 Clean [expected_header, [''0.0'', ''10'', ''10'', ''0''], [''1.5'', ''20'', ''20'', ''0'']]],
       writable = (\<lambda>_. True)\<rparr>)"
proof -
  have i: "str_int 10 = ''10''" "str_int 20 = ''20''" "str_int 0 = ''0''" by code_simp+
  show ?thesis
    by (simp add: first_trial_done_def trial_cycle_def game_frame_def handle_keydown_def
      handle_mouse_motion_def save_trajectory_data_def init_game_def open_storage_def
      next_participant_number_empty record_name_1_1 table_float_str_def i Let_def)
qed

lemma record_name_1_2: "record_name 1 2 = ''SHSA_1_2.csv''"
  by code_simp

section \<open>Saving\<close>

text \<open>
  Claim C5. Saving an empty record (no samples) always fails, and the failed save leaves
  the storage as it was: no file is created and no existing file of that participant and
  trial is overwritten.
\<close>

theorem C5_empty_record_save_fails:
  "mouse_positions g = [] \<Longrightarrow> save_trajectory_data float_str g st = (False, st)"
  by (simp add: save_trajectory_data_def)

theorem C5_empty_record_save_fails_witness:
  "mouse_positions (init_game []) = []
   \<and> save_trajectory_data table_float_str (init_game []) used_storage = (False, used_storage)"
  using C5_empty_record_save_fails [of "init_game []" table_float_str used_storage]
  by (simp add: init_game_def)

text \<open>
  Claim C10. Saving a non-empty record under a participant and trial whose file already
  exists succeeds and replaces the content of that file by the new record, whatever the
  old content was; every other file stays as it is.
\<close>

theorem C10_save_overwrites:
  assumes "mouse_positions g \<noteq> []"
    and "writable st (record_name (participant_number g) (trial_number g))"
    and "files st (record_name (participant_number g) (trial_number g)) = Some old"
  shows "fst (save_trajectory_data float_str g st)
    \<and> files (snd (save_trajectory_data float_str g st))
          (record_name (participant_number g) (trial_number g))
        = Some (Clean (expected_header # map (sample_row float_str) (mouse_positions g)))
    \<and> (\<forall>other. other \<noteq> record_name (participant_number g) (trial_number g)
          \<longrightarrow> files (snd (save_trajectory_data float_str g st)) other = files st other)"
  using assms by (simp add: save_trajectory_data_def Let_def)

theorem C10_save_overwrites_witness:
  "mouse_positions recorded_game \<noteq> []
   \<and> writable used_storage ''SHSA_1_1.csv''
   \<and> files used_storage ''SHSA_1_1.csv'' = Some (Clean [expected_header, [''1.5'', ''7'', ''8'', ''0'']])
   \<and> fst (save_trajectory_data table_float_str recorded_game used_storage)
   \<and> files (snd (save_trajectory_data table_float_str recorded_game used_storage)) ''SHSA_1_1.csv''
       = Some (Clean [expected_header, [''0.0'', ''10'', ''10'', ''1''], [''0.05'', ''20'', ''20'', ''0''],
               [''0.2'', ''30'', ''30'', ''1'']])"
proof -
  have a: "mouse_positions recorded_game \<noteq> []"
    by (simp add: recorded_game_simps three_samples_def)
  have b: "writable used_storage (record_name (participant_number recorded_game) (trial_number recorded_game))"
    by (simp add: used_storage_def)
  have c: "files used_storage (record_name (participant_number recorded_game) (trial_number recorded_game))
      = Some (Clean [expected_header, [''1.5'', ''7'', ''8'', ''0'']])"
    by (simp add: used_storage_def recorded_game_simps record_name_1_1)
  have rows: "map (sample_row table_float_str) three_samples
      = [[''0.0'', ''10'', ''10'', ''1''], [''0.05'', ''20'', ''20'', ''0''], [''0.2'', ''30'', ''30'', ''1'']]"
    by code_simp
  from C10_save_overwrites [OF a b c, of table_float_str] a b c
  show ?thesis by (simp add: recorded_game_simps record_name_1_1 rows used_storage_def)
qed

section \<open>The recorder's key handler\<close>

lemma game_run_append: "game_run f (xs @ ys) s = game_run f ys (game_run f xs s)"
proof (induction xs arbitrary: s)
  case Nil
  show ?case by simp
next
  case (Cons x xs)
  obtain running g st where s: "s = (running, g, st)" by (cases s)
  show ?case
  proof (cases running)
    case True
    then show ?thesis using Cons.IH by (simp add: s)
  next
    case False
    then show ?thesis by (cases ys) (simp_all add: s)
  qed
qed

lemma motions_frame:
  assumes "tracking g"
  shows "game_frame f (map (\<lambda>(t, pos). (t, MOUSEMOTION pos)) motions) (True, g, st)
         = (True, g\<lparr>mouse_positions := mouse_positions g @ recorded (start_time g) (space_event g) motions\<rparr>, st)"
  using assms
proof (induction motions arbitrary: g)
  case Nil
  then show ?case by (simp add: game_frame_def recorded_def)
next
  case (Cons m motions)
  obtain t x y where m: "m = (t, (x, y))" by (cases m) auto
  let ?g = "handle_mouse_motion t (x, y) g"
  have tr: "tracking ?g" using Cons.prems by (simp add: handle_mouse_motion_def)
  have "game_frame f (map (\<lambda>(t, pos). (t, MOUSEMOTION pos)) (m # motions)) (True, g, st)
      = game_frame f (map (\<lambda>(t, pos). (t, MOUSEMOTION pos)) motions) (True, ?g, st)"
    by (simp add: game_frame_def m)
  also have "\<dots> = (True, ?g\<lparr>mouse_positions := mouse_positions ?g @ recorded (start_time ?g) (space_event ?g) motions\<rparr>, st)"
    by (rule Cons.IH [OF tr])
  also have "\<dots> = (True, g\<lparr>mouse_positions := mouse_positions g @ recorded (start_time g) (space_event g) (m # motions)\<rparr>, st)"
    using Cons.prems by (simp add: handle_mouse_motion_def recorded_def m)
  finally show ?case .
qed

lemma trial_cycle_run:
  assumes "\<not> next_participant g" and "motions \<noteq> []"
    and "writable st (record_name (participant_number g) (trial_number g))"
  shows "game_run f (trial_cycle t0 motions) (True, g, st)
    = (True,
       g\<lparr>tracking := False, start_time := t0,
         mouse_positions := recorded t0 (space_event g) motions,
         save_prompt := False, trial_number := trial_number g + 1,
         next_participant := (trial_number g + 1 > max_trials g)\<rparr>,
       st\<lparr>files := (files st)(record_name (participant_number g) (trial_number g) \<mapsto>
             Clean (expected_header # map (sample_row f) (recorded t0 (space_event g) motions)))\<rparr>)"
proof -
  let ?g1 = "g\<lparr>tracking := True, start_time := t0, mouse_positions := []\<rparr>"
  have m: "game_frame f (map (\<lambda>(t, pos). (t, MOUSEMOTION pos)) motions) (True, ?g1, st)
      = (True, ?g1\<lparr>mouse_positions := mouse_positions ?g1 @ recorded (start_time ?g1) (space_event ?g1) motions\<rparr>, st)"
    by (rule motions_frame) simp
  have ne: "recorded t0 (space_event g) motions \<noteq> []"
    using assms(2) by (simp add: recorded_def)
  show ?thesis
    using assms(1,3) ne m [unfolded game_frame_def]
    by (simp add: trial_cycle_def game_frame_def handle_keydown_def
      save_trajectory_data_def Let_def)
qed



text \<open>
  Claim C9. The stop key is accepted in every state: it always opens the save prompt and
  leaves the record in memory as it is. Confirming then writes that record under the
  current participant and trial number, so the samples of the trial just saved can be saved
  once more under the next trial number.
\<close>

theorem C9_stop_is_unguarded:
  "handle_keydown float_str now K_q g st = (True, g\<lparr>tracking := False, save_prompt := True\<rparr>, st)
   \<and> (mouse_positions g \<noteq> []
        \<and> writable st (record_name (participant_number g) (trial_number g))
      \<longrightarrow> (case handle_keydown float_str now' K_y (g\<lparr>tracking := False, save_prompt := True\<rparr>) st of
            (r, g', st') \<Rightarrow>
              files st' (record_name (participant_number g) (trial_number g))
                = Some (Clean (expected_header # map (sample_row float_str) (mouse_positions g)))
              \<and> trial_number g' = trial_number g + 1
              \<and> mouse_positions g' = mouse_positions g))"
  by (auto simp: handle_keydown_def save_trajectory_data_def Let_def split: prod.splits)

theorem C9_stop_is_unguarded_witness:
  "(case first_trial_done of
      (r, g, st) \<Rightarrow>
        \<not> tracking g \<and> mouse_positions g \<noteq> [] \<and> trial_number g = 2
        \<and> writable st (record_name (participant_number g) (trial_number g))
        \<and> files st ''SHSA_1_2.csv'' = None
        \<and> (case handle_keydown table_float_str 0 K_q g st of
             (r1, g1, st1) \<Rightarrow>
               save_prompt g1
               \<and> (case handle_keydown table_float_str 0 K_y g1 st1 of
                    (r2, g2, st2) \<Rightarrow>
                      files st2 ''SHSA_1_2.csv'' = files st ''SHSA_1_1.csv''
                      \<and> files st2 ''SHSA_1_2.csv'' \<noteq> None \<and> trial_number g2 = 3)))"
proof -
  obtain g st where e: "first_trial_done = (True, g, st)"
    and g: "g = \<lparr>tracking = False, mouse_positions = [(0, 10, 10, 0), (3 / 2, 20, 20, 0)],
       space_event = 0, start_time = 0, save_prompt = False, next_participant = False,
       participant_number = 1, trial_number = 2, max_trials = 5\<rparr>"
    and st: "st = \<lparr>files = [''SHSA_1_1.csv'' \<mapsto>
                 Clean [expected_header, [''0.0'', ''10'', ''10'', ''0''], [''1.5'', ''20'', ''20'', ''0'']]],
       writable = (\<lambda>_. True)\<rparr>"
    using first_trial_done_eq by simp
  have i: "str_int 10 = ''10''" "str_int 20 = ''20''" "str_int 0 = ''0''" by code_simp+
  from C9_stop_is_unguarded [where g = g and st = st and float_str = table_float_str
      and now = 0 and now' = 0]
  show ?thesis
    unfolding e by (auto simp: g st record_name_1_2 i table_float_str_def split: prod.splits)
qed

section \<open>Participant numbering\<close>

lemma next_participant_number_Max:
  "get_next_participant_number listing =
     (let found = List.map_filter participant_component (filter glob_SHSA_csv listing)
      in if found = [] then 1 else Max (set found) + 1)"
proof (cases "List.map_filter participant_component (filter glob_SHSA_csv listing) = []")
  case True
  then show ?thesis
    by (simp add: get_next_participant_number_def Let_def)
next
  case False
  then have "filter glob_SHSA_csv listing \<noteq> []" by auto
  with False show ?thesis
    by (simp add: get_next_participant_number_def Let_def max_default_Max)
qed

lemma found_participants:
  assumes "\<forall>e \<in> set entries. passed_over e"
  shows "List.map_filter participant_component (filter glob_SHSA_csv (map entry_name entries))
         = participants entries"
  using assms
proof (induction entries)
  case Nil
  show ?case by (simp add: participants_def)
next
  case (Cons e entries)
  then have IH: "List.map_filter participant_component (filter glob_SHSA_csv (map entry_name entries))
         = participants entries" by simp
  show ?case
  proof (cases e)
    case (Inl pt)
    obtain p t where pt: "pt = (p, t)" by (cases pt)
    have n: "record_name p t = ''SHSA_'' @ str_int p @ CHR ''_'' # str_int t @ ''.csv''"
      by (simp add: record_name_def)
    have g: "glob_SHSA_csv (record_name p t)"
      using glob_record [of "str_int p @ CHR ''_'' # str_int t"] by (simp add: n)
    have c: "participant_component (record_name p t) = Some p"
      unfolding n by (rule participant_component_record)
    show ?thesis using IH g c by (simp add: Inl pt participants_def)
  next
    case (Inr f)
    with Cons.prems have "passed_over (Inr f)" by simp
    then show ?thesis using IH
      by (auto simp: Inr participants_def split: if_splits)
  qed
qed

text \<open>
  Claim C6, as stated, fails: a file that lacks the trial component, such as
  \<^verbatim>\<open>SHSA_9.csv\<close>, does not follow the naming convention and is counted all the same.
\<close>

theorem C6_counted_without_trial_counterexample:
  "\<not> is_record_name ''SHSA_9.csv'' \<and> get_next_participant_number [''SHSA_9.csv''] = 10"
  by code_simp

text \<open>
  Claim C6, amended. In a directory whose entries are records named by the recorder
  together with other files that either do not match \<^verbatim>\<open>SHSA_*.csv\<close> or have an ASCII
  name whose participant component is not an integer, the next participant number is one
  more than the largest participant of a record, or 1 when there is no record. Trial
  numbers play no part and the other files are passed over.
\<close>

theorem C6_next_participant_number:
  assumes "\<forall>e \<in> set entries. passed_over e"
  shows "get_next_participant_number (map entry_name entries)
         = (if participants entries = [] then 1 else Max (set (participants entries)) + 1)"
  unfolding next_participant_number_Max found_participants [OF assms] by (simp add: Let_def)

theorem C6_next_participant_number_witness:
  "list_all passed_over mixed_directory
   \<and> get_next_participant_number
        [''SHSA_1_1.csv'', ''notes.txt'', ''SHSA_3_2.csv'', ''SHSA_3_5.csv'', ''SHSA_abc.csv'', ''SHSA_7_1.csv''] = 8
   \<and> get_next_participant_number [] = 1"
proof -
  have a: "\<forall>e \<in> set mixed_directory. passed_over e"
    unfolding mixed_directory_def by code_simp
  have b: "\<forall>e \<in> set ([] :: ((int \<times> int) + string) list). passed_over e" by simp
  have n: "map entry_name mixed_directory =
     [''SHSA_1_1.csv'', ''notes.txt'', ''SHSA_3_2.csv'', ''SHSA_3_5.csv'', ''SHSA_abc.csv'', ''SHSA_7_1.csv'']"
    unfolding mixed_directory_def by code_simp
  have p: "participants mixed_directory = [1, 3, 3, 7]"
    unfolding mixed_directory_def by code_simp
  have e: "participants [] = []" by (simp add: participants_def)
  from C6_next_participant_number [OF a] C6_next_participant_number [OF b] a
  show ?thesis by (simp add: n p e list_all_iff)
qed

section \<open>Loading\<close>

lemma load_rows_eq:
  "load_rows float_of n rows (events_data, warnings)
   = (events_data @ valid_rows float_of rows, warnings @ row_warnings float_of n rows)"
proof (induction rows arbitrary: n events_data warnings)
  case Nil
  show ?case by (simp add: valid_rows_def row_warnings_def map_filter_simps)
next
  case (Cons row rows)
  show ?case
  proof (cases "parse_row float_of row")
    case (Inl e)
    then show ?thesis
      using Cons.IH [of "Suc n" events_data "warnings @ [InvalidRow n row]"]
      by (simp add: valid_rows_def row_warnings_def map_filter_simps)
  next
    case (Inr smp)
    then show ?thesis
      using Cons.IH [of "Suc n" "events_data @ [smp]" warnings]
      by (simp add: valid_rows_def row_warnings_def map_filter_simps)
  qed
qed




lemma parse_sample_row:
  assumes "float_of (float_str (fst s)) = Some (fst s)"
  shows "parse_row float_of (sample_row float_str s) = Inr s"
proof -
  obtain timestamp x y event where s: "s = (timestamp, x, y, event)" by (cases s)
  with assms show ?thesis by (simp add: parse_row_def py_int_str_int)
qed

lemma valid_sample_rows:
  assumes "\<forall>s \<in> set xs. float_of (float_str (fst s)) = Some (fst s)"
  shows "valid_rows float_of (map (sample_row float_str) xs) = xs"
    and "row_warnings float_of n (map (sample_row float_str) xs) = []"
  using assms
proof (induction xs arbitrary: n)
  case Nil
  { case 1 show ?case by (simp add: valid_rows_def map_filter_simps) }
  { case 2 show ?case by (simp add: row_warnings_def) }
next
  case (Cons a xs)
  { case 1
    then have "parse_row float_of (sample_row float_str a) = Inr a" by (simp add: parse_sample_row)
    moreover have "valid_rows float_of (map (sample_row float_str) xs) = xs" using Cons.IH(1) 1 by simp
    ultimately show ?case by (simp add: valid_rows_def map_filter_simps) }
  { case 2
    then have "parse_row float_of (sample_row float_str a) = Inr a" by (simp add: parse_sample_row)
    moreover have "row_warnings float_of (Suc n) (map (sample_row float_str) xs) = []" using Cons.IH(2) 2 by simp
    ultimately show ?case by (simp add: row_warnings_def) }
qed

text \<open>
  Claim C1. For a record with at least one sample, saving and then loading the file of the
  same participant and trial gives back all samples in capture order, with equal x, y and
  event values and with equal timestamps whenever the float text of each timestamp reads
  back as that timestamp; no row is rejected and no warning is printed.
\<close>

theorem C1_save_then_load:
  assumes "mouse_positions g \<noteq> []"
    and "writable st (record_name (participant_number g) (trial_number g))"
    and "\<forall>s \<in> set (mouse_positions g). float_of (float_str (fst s)) = Some (fst s)"
  shows "case save_trajectory_data float_str g st of
           (ok, st') \<Rightarrow>
             ok \<and> load_trial_data float_of st' (record_name (participant_number g) (trial_number g))
                  = ([], Inr (mouse_positions g))"
  using assms(1,2) valid_sample_rows(1) [OF assms(3)] valid_sample_rows(2) [OF assms(3), where n = 2]
  by (simp add: save_trajectory_data_def Let_def load_trial_data_def load_rows_eq)

theorem C1_save_then_load_witness:
  "mouse_positions recorded_game \<noteq> []
   \<and> list_all (\<lambda>s. table_float_of (table_float_str (fst s)) = Some (fst s)) (mouse_positions recorded_game)
   \<and> fst (save_trajectory_data table_float_str recorded_game open_storage)
   \<and> load_trial_data table_float_of (snd (save_trajectory_data table_float_str recorded_game open_storage))
        ''SHSA_1_1.csv''
      = ([], Inr [(0, 10, 10, 1), (1 / 20, 20, 20, 0), (1 / 5, 30, 30, 1)])"
proof -
  have a: "mouse_positions recorded_game \<noteq> []"
    by (simp add: recorded_game_simps three_samples_def)
  have b: "writable open_storage (record_name (participant_number recorded_game) (trial_number recorded_game))"
    by (simp add: open_storage_def)
  have c: "\<forall>s \<in> set (mouse_positions recorded_game). table_float_of (table_float_str (fst s)) = Some (fst s)"
    by (simp add: recorded_game_simps three_samples_def table_float_of_def table_float_str_def)
  from C1_save_then_load [OF a b c] a c
  show ?thesis
    by (simp add: recorded_game_simps record_name_1_1 three_samples_def list_all_iff split: prod.splits)
qed

section \<open>The trial state machine\<close>

lemma cycle_step:
  assumes "\<not> next_participant g" and "motions \<noteq> []"
    and "writable st (record_name (participant_number g) (trial_number g))"
  shows "\<exists>g' st'. game_run f (trial_cycle t0 motions) (True, g, st) = (True, g', st')
    \<and> participant_number g' = participant_number g
    \<and> trial_number g' = trial_number g + 1
    \<and> max_trials g' = max_trials g
    \<and> (next_participant g' \<longleftrightarrow> trial_number g + 1 > max_trials g)
    \<and> \<not> tracking g' \<and> \<not> save_prompt g'
    \<and> writable st' = writable st"
  unfolding trial_cycle_run [OF assms] by simp

text \<open>
  Claim C2, as stated, fails in its last part: after the answer N to the advance prompt
  the recorder accepts the start key again, and a sixth trial of the same participant is
  recorded and saved, with nothing reset from outside.
\<close>

theorem C2_recording_after_cancel_counterexample:
  "participant_number (fst (snd five_trials_cancelled)) = 1
   \<and> trial_number (fst (snd five_trials_cancelled)) = 6
   \<and> \<not> next_participant (fst (snd five_trials_cancelled))
   \<and> files (snd (snd five_trials_cancelled)) ''SHSA_1_6.csv'' = None
   \<and> mouse_positions (fst (snd sixth_trial_done)) = [(0, 10, 10, 0)]
   \<and> files (snd (snd sixth_trial_done)) ''SHSA_1_6.csv''
       = Some (Clean [expected_header, [''0.0'', ''10'', ''10'', ''0'']])
   \<and> trial_number (fst (snd sixth_trial_done)) = 7"
  by code_simp

text \<open>
  Claim C2, amended. From a fresh recorder, five trials in a row, each started, given at
  least one pointer motion, stopped and confirmed with a writable file, lead to the advance
  prompt with trial number 6. Answering Y there increments the participant number and
  resets the trial number to 1. Answering N leaves the participant number unchanged and the
  trial number at 6 and closes the prompt; the start key is then accepted again, and a
  further trial is saved as trial 6 of the same participant, which opens the advance prompt
  again with trial number 7.
\<close>

theorem C2_five_trials_then_prompt:
  assumes motions: "m1 \<noteq> []" "m2 \<noteq> []" "m3 \<noteq> []" "m4 \<noteq> []" "m5 \<noteq> []"
    and writable: "\<forall>t \<in> {1, 2, 3, 4, 5}. writable st (record_name (get_next_participant_number listing) t)"
    and run: "game_run f (trial_cycle t1 m1 @ trial_cycle t2 m2 @ trial_cycle t3 m3
                 @ trial_cycle t4 m4 @ trial_cycle t5 m5) (True, init_game listing, st) = (r, g, st')"
  shows "r \<and> next_participant g \<and> \<not> tracking g \<and> \<not> save_prompt g
    \<and> trial_number g = 6 \<and> participant_number g = get_next_participant_number listing
    \<and> handle_keydown f now K_y g st'
        = (True, g\<lparr>participant_number := get_next_participant_number listing + 1,
                   trial_number := 1, next_participant := False\<rparr>, st')
    \<and> handle_keydown f now K_n g st' = (True, g\<lparr>next_participant := False\<rparr>, st')
    \<and> handle_keydown f now K_s (g\<lparr>next_participant := False\<rparr>) st'
        = (True, g\<lparr>next_participant := False, tracking := True, start_time := now,
                   mouse_positions := []\<rparr>, st')
    \<and> (m6 \<noteq> [] \<and> writable st (record_name (get_next_participant_number listing) 6)
        \<longrightarrow> (case game_run f (trial_cycle t6 m6) (True, g\<lparr>next_participant := False\<rparr>, st') of
              (r6, g6, st6) \<Rightarrow>
                files st6 (record_name (get_next_participant_number listing) 6)
                  = Some (Clean (expected_header # map (sample_row f) (mouse_positions g6)))
                \<and> mouse_positions g6 \<noteq> [] \<and> trial_number g6 = 7 \<and> next_participant g6))"
proof -
  let ?p = "get_next_participant_number listing"
  let ?g0 = "init_game listing"
  have g0: "\<not> next_participant ?g0" "participant_number ?g0 = ?p" "trial_number ?g0 = 1"
    "max_trials ?g0 = 5"
    by (simp_all add: init_game_def)
  from writable have w: "writable st (record_name ?p 1)" "writable st (record_name ?p 2)"
    "writable st (record_name ?p 3)" "writable st (record_name ?p 4)"
    "writable st (record_name ?p 5)" by simp_all
  obtain g1 s1 where c1: "game_run f (trial_cycle t1 m1) (True, ?g0, st) = (True, g1, s1)"
    and i1: "participant_number g1 = ?p" "trial_number g1 = 2" "max_trials g1 = 5"
      "\<not> next_participant g1" "writable s1 = writable st"
  proof -
    have "\<not> next_participant ?g0" "m1 \<noteq> []"
      "writable st (record_name (participant_number ?g0) (trial_number ?g0))"
      using g0 motions(1) w(1) by simp_all
    from cycle_step [OF this, of f t1] g0 that show thesis by auto
  qed
  obtain g2 s2 where c2: "game_run f (trial_cycle t2 m2) (True, g1, s1) = (True, g2, s2)"
    and i2: "participant_number g2 = ?p" "trial_number g2 = 3" "max_trials g2 = 5"
      "\<not> next_participant g2" "writable s2 = writable st"
  proof -
    have "\<not> next_participant g1" "m2 \<noteq> []"
      "writable s1 (record_name (participant_number g1) (trial_number g1))"
      using i1 motions(2) w(2) by simp_all
    from cycle_step [OF this, of f t2] i1 that show thesis by auto
  qed
  obtain g3 s3 where c3: "game_run f (trial_cycle t3 m3) (True, g2, s2) = (True, g3, s3)"
    and i3: "participant_number g3 = ?p" "trial_number g3 = 4" "max_trials g3 = 5"
      "\<not> next_participant g3" "writable s3 = writable st"
  proof -
    have "\<not> next_participant g2" "m3 \<noteq> []"
      "writable s2 (record_name (participant_number g2) (trial_number g2))"
      using i2 motions(3) w(3) by simp_all
    from cycle_step [OF this, of f t3] i2 that show thesis by auto
  qed
  obtain g4 s4 where c4: "game_run f (trial_cycle t4 m4) (True, g3, s3) = (True, g4, s4)"
    and i4: "participant_number g4 = ?p" "trial_number g4 = 5" "max_trials g4 = 5"
      "\<not> next_participant g4" "writable s4 = writable st"
  proof -
    have "\<not> next_participant g3" "m4 \<noteq> []"
      "writable s3 (record_name (participant_number g3) (trial_number g3))"
      using i3 motions(4) w(4) by simp_all
    from cycle_step [OF this, of f t4] i3 that show thesis by auto
  qed
  obtain g5 s5 where c5: "game_run f (trial_cycle t5 m5) (True, g4, s4) = (True, g5, s5)"
    and i5: "participant_number g5 = ?p" "trial_number g5 = 6" "max_trials g5 = 5"
      "next_participant g5" "\<not> tracking g5" "\<not> save_prompt g5" "writable s5 = writable st"
  proof -
    have "\<not> next_participant g4" "m5 \<noteq> []"
      "writable s4 (record_name (participant_number g4) (trial_number g4))"
      using i4 motions(5) w(5) by simp_all
    from cycle_step [OF this, of f t5] i4 that show thesis by auto
  qed
  from run have "(r, g, st') = (True, g5, s5)"
    by (simp add: game_run_append c1 c2 c3 c4 c5)
  then have e: "r = True" "g = g5" "st' = s5" by simp_all
  have six: "case game_run f (trial_cycle t6 m6) (True, g5\<lparr>next_participant := False\<rparr>, s5) of
      (r6, g6, st6) \<Rightarrow>
        files st6 (record_name ?p 6) = Some (Clean (expected_header # map (sample_row f) (mouse_positions g6)))
        \<and> mouse_positions g6 \<noteq> [] \<and> trial_number g6 = 7 \<and> next_participant g6"
    if "m6 \<noteq> []" and "writable st (record_name ?p 6)"
  proof -
    let ?g = "g5\<lparr>next_participant := False\<rparr>"
    have "\<not> next_participant ?g" by simp
    moreover have "writable s5 (record_name (participant_number ?g) (trial_number ?g))"
      using that(2) i5 by simp
    ultimately show ?thesis
      using trial_cycle_run [of ?g m6 s5 f t6] that(1) i5 by (simp add: recorded_def)
  qed
  show ?thesis
    unfolding e using i5 six by (simp add: handle_keydown_def)
qed

theorem C2_five_trials_then_prompt_witness:
  "one_motion \<noteq> []
   \<and> list_all (\<lambda>t. writable open_storage (record_name (get_next_participant_number []) t))
        [1, 2, 3, 4, 5, 6]
   \<and> fst five_trials_done
   \<and> next_participant (fst (snd five_trials_done))
   \<and> trial_number (fst (snd five_trials_done)) = 6
   \<and> participant_number (fst (snd five_trials_done)) = 1
   \<and> handle_keydown table_float_str 0 K_y (fst (snd five_trials_done)) (snd (snd five_trials_done))
       = (True, (fst (snd five_trials_done))\<lparr>participant_number := 2, trial_number := 1,
                  next_participant := False\<rparr>, snd (snd five_trials_done))
   \<and> handle_keydown table_float_str 0 K_n (fst (snd five_trials_done)) (snd (snd five_trials_done))
       = (True, (fst (snd five_trials_done))\<lparr>next_participant := False\<rparr>, snd (snd five_trials_done))
   \<and> tracking (fst (snd (handle_keydown table_float_str 0 K_s
        ((fst (snd five_trials_done))\<lparr>next_participant := False\<rparr>) (snd (snd five_trials_done)))))"
proof -
  have m: "one_motion \<noteq> []" by (simp add: one_motion_def)
  have w: "\<forall>t \<in> {1, 2, 3, 4, 5}. writable open_storage (record_name (get_next_participant_number []) t)"
    by (simp add: open_storage_def)
  have w': "list_all (\<lambda>t. writable open_storage (record_name (get_next_participant_number []) t))
        [1, 2, 3, 4, 5, 6]"
    by (simp add: open_storage_def)
  have r: "game_run table_float_str
      (trial_cycle 0 one_motion @ trial_cycle 0 one_motion @ trial_cycle 0 one_motion
         @ trial_cycle 0 one_motion @ trial_cycle 0 one_motion)
      (True, init_game [], open_storage)
    = (fst five_trials_done, fst (snd five_trials_done), snd (snd five_trials_done))"
    by (simp add: five_trials_def five_trials_done_def)
  from C2_five_trials_then_prompt [OF m m m m m w r, where now = 0 and ?m6.0 = one_motion and ?t6.0 = 0]
    m w'
  show ?thesis
    by (simp add: next_participant_number_empty)
qed

section \<open>Playback\<close>

lemma sleeps_of_simps:
  "sleeps_of [] = []"
  "sleeps_of (a @ b) = sleeps_of a @ sleeps_of b"
  "sleeps_of [Flip] = []"
  "sleeps_of [Sleep d] = [d]"
  "sleeps_of (map Circle ps) = []"
  "sleeps_of (draw_trajectory_segment p q) = []"
  by (simp_all add: sleeps_of_def draw_trajectory_segment_def comp_def)

lemma replay_poll_fields:
  assumes "replay_poll evs r = (res, r')"
  shows "counter r' = counter r" and "previous_timestamp r' = previous_timestamp r"
    and "trace r' = trace r" and "spacebar_events r' = spacebar_events r"
    and "previous_position r' = previous_position r" and "res \<noteq> Some 0"
  using assms
  by (induction evs r rule: replay_poll.induct) (auto split: if_splits)

lemma capped_deltas_take:
  assumes "n \<le> length events_data"
  shows "capped_deltas (take n events_data) = concat (map (delta_step events_data) [1 ..< n])"
proof -
  have "map (delta_step (take n events_data)) [1 ..< n] = map (delta_step events_data) [1 ..< n]"
    by (rule map_cong) (auto simp: delta_step_def)
  moreover have "length (take n events_data) = n" using assms by simp
  ultimately show ?thesis by (simp only: capped_deltas_def)
qed

lemma capped_deltas_Suc:
  assumes "k < length events_data"
  shows "capped_deltas (take (Suc k) events_data)
         = capped_deltas (take k events_data) @ (if k > 0 then delta_step events_data k else [])"
proof (cases "k > 0")
  case True
  then have "[1 ..< Suc k] = [1 ..< k] @ [k]" by simp
  with assms True show ?thesis by (simp add: capped_deltas_take)
next
  case False
  then have k: "k = 0" by simp
  from assms k have "Suc 0 \<le> length events_data" by (cases events_data) simp_all
  then have "capped_deltas (take (Suc 0) events_data) = []"
    using capped_deltas_take [of "Suc 0" events_data] by simp
  then show ?thesis by (simp add: k capped_deltas_def)
qed

lemma replay_advance_sleeps:
  assumes "counter r < length events_data"
    and "counter r > 0 \<longrightarrow> previous_timestamp r = fst (events_data ! (counter r - 1))"
  shows "sleeps_of (trace (replay_advance events_data r))
         = sleeps_of (trace r) @ (if counter r > 0 then delta_step events_data (counter r) else [])"
    and "counter (replay_advance events_data r) = Suc (counter r)"
    and "previous_timestamp (replay_advance events_data r) = fst (events_data ! counter r)"
    and "is_paused (replay_advance events_data r) = is_paused r"
  using assms
  by (auto simp: replay_advance_def Let_def sleeps_of_simps delta_step_def split: prod.splits)

lemma replay_loop_sleeps:
  assumes "replay_loop events_data frames r = (res, r', rest)"
    and "counter r \<le> length events_data"
    and "counter r > 0 \<longrightarrow> previous_timestamp r = fst (events_data ! (counter r - 1))"
    and "sleeps_of (trace r) = pre @ capped_deltas (take (counter r) events_data)"
  shows "sleeps_of (trace r') = pre @ capped_deltas (take (counter r') events_data)
         \<and> counter r' \<le> length events_data
         \<and> (res = Some 0 \<longrightarrow> counter r' = length events_data)"
  using assms
proof (induction frames arbitrary: r)
  case Nil
  then show ?case by (auto simp: sleeps_of_simps split: if_splits)
next
  case (Cons f fs)
  show ?case
  proof (cases "counter r < length events_data")
    case False
    with Cons.prems show ?thesis by (auto simp: sleeps_of_simps)
  next
    case True
    obtain c r1 where p: "replay_poll f r = (c, r1)" by (cases "replay_poll f r")
    note f1 = replay_poll_fields [OF p]
    show ?thesis
    proof (cases c)
      case (Some code)
      with Cons.prems True p f1 show ?thesis by auto
    next
      case None
      define r2 where "r2 = (if \<not> is_paused r1 then replay_advance events_data r1 else r1)"
      define r3 where "r3 = r2\<lparr>trace := trace r2 @ [Flip]\<rparr>"
      from Cons.prems(1) True p None
      have run: "replay_loop events_data fs r3 = (res, r', rest)"
        by (simp add: r3_def r2_def Let_def)
      have k: "counter r1 < length events_data" using True f1 by simp
      have ts: "counter r1 > 0 \<longrightarrow> previous_timestamp r1 = fst (events_data ! (counter r1 - 1))"
        using Cons.prems(3) f1 by simp
      have s1: "sleeps_of (trace r1) = pre @ capped_deltas (take (counter r1) events_data)"
        using Cons.prems(4) f1 by simp
      have a: "counter r3 \<le> length events_data"
        using k replay_advance_sleeps(2) [OF k ts] by (simp add: r3_def r2_def)
      have b: "counter r3 > 0 \<longrightarrow> previous_timestamp r3 = fst (events_data ! (counter r3 - 1))"
        using ts replay_advance_sleeps(2,3) [OF k ts] by (simp add: r3_def r2_def)
      have c: "sleeps_of (trace r3) = pre @ capped_deltas (take (counter r3) events_data)"
      proof (cases "is_paused r1")
        case True
        then show ?thesis using s1 by (simp add: r3_def r2_def sleeps_of_simps)
      next
        case False
        then show ?thesis
          using s1 replay_advance_sleeps(1,2) [OF k ts] capped_deltas_Suc [OF k]
          by (simp add: r3_def r2_def sleeps_of_simps)
      qed
      show ?thesis by (rule Cons.IH [OF run a b c])
    qed
  qed
qed

lemma segments_front: "Flip \<notin> set x \<Longrightarrow> segments (x @ Flip # tr) = x # segments tr"
  by (induction x) auto

lemma sample_actions_no_flip: "Flip \<notin> set (sample_actions events_data k)"
  by (auto simp: sample_actions_def draw_trajectory_segment_def)

lemma marks_upto_Suc:
  assumes "k < length events_data"
  shows "marks_upto events_data (Suc k)
         = marks_upto events_data k
           @ (if snd (snd (snd (events_data ! k))) = 1 then [position (events_data ! k)] else [])"
  using assms by (auto simp: marks_upto_def take_Suc_conv_app_nth split: prod.splits)

lemma replay_advance_actions:
  assumes "counter r < length events_data" and "at_sample events_data r"
  shows "trace (replay_advance events_data r) = trace r @ sample_actions events_data (counter r)"
    and "at_sample events_data (replay_advance events_data r)"
    and "counter (replay_advance events_data r) = Suc (counter r)"
    and "is_paused (replay_advance events_data r) = is_paused r"
proof -
  obtain timestamp x y event where s: "events_data ! counter r = (timestamp, x, y, event)"
    by (cases "events_data ! counter r")
  note m = marks_upto_Suc [OF assms(1)]
  from assms(2) s m show "trace (replay_advance events_data r) = trace r @ sample_actions events_data (counter r)"
    by (auto simp: replay_advance_def sample_actions_def at_sample_def Let_def position_def
        delta_step_def)
  from assms(2) s m show "at_sample events_data (replay_advance events_data r)"
    by (auto simp: replay_advance_def at_sample_def Let_def position_def)
  show "counter (replay_advance events_data r) = Suc (counter r)"
    by (simp add: replay_advance_def Let_def split: prod.splits)
  show "is_paused (replay_advance events_data r) = is_paused r"
    by (simp add: replay_advance_def Let_def split: prod.splits)
qed

lemma at_sample_poll:
  assumes "replay_poll f r = (res, r')" and "at_sample events_data r"
  shows "at_sample events_data r'"
  using assms(2) replay_poll_fields [OF assms(1)] by (simp add: at_sample_def)

lemma replay_loop_segments:
  assumes "replay_loop events_data frames r = (res, r', rest)"
    and "counter r \<le> length events_data" and "at_sample events_data r"
  shows "\<exists>tr. trace r' = trace r @ tr
           \<and> filter (\<lambda>s. s \<noteq> []) (segments tr)
               = filter (\<lambda>s. s \<noteq> []) (map (sample_actions events_data) [counter r ..< counter r'])
           \<and> counter r \<le> counter r' \<and> counter r' \<le> length events_data
           \<and> (res = Some 0 \<longleftrightarrow> counter r' = length events_data)"
  using assms
proof (induction frames arbitrary: r)
  case Nil
  then show ?case by (auto split: if_splits)
next
  case (Cons f fs)
  show ?case
  proof (cases "counter r < length events_data")
    case False
    with Cons.prems show ?thesis by auto
  next
    case True
    obtain c r1 where p: "replay_poll f r = (c, r1)" by (cases "replay_poll f r")
    note f1 = replay_poll_fields [OF p]
    note a1 = at_sample_poll [OF p Cons.prems(3)]
    show ?thesis
    proof (cases c)
      case (Some code)
      with Cons.prems True p f1 show ?thesis by auto
    next
      case None
      have k: "counter r1 < length events_data" using True f1 by simp
      show ?thesis
      proof (cases "is_paused r1")
        case True
        define r3 where "r3 = r1\<lparr>trace := trace r1 @ [Flip]\<rparr>"
        from Cons.prems(1) \<open>counter r < length events_data\<close> p None True
        have run: "replay_loop events_data fs r3 = (res, r', rest)"
          by (simp add: r3_def)
        have c3: "counter r3 = counter r" and t3: "trace r3 = trace r @ [Flip]"
          using f1 by (simp_all add: r3_def)
        have b1: "counter r3 \<le> length events_data" using k f1 by (simp add: r3_def)
        have b2: "at_sample events_data r3" using a1 by (simp add: r3_def at_sample_def)
        note ex = Cons.IH [OF run b1 b2]
        from ex obtain tr where tr: "trace r' = trace r3 @ tr"
          "filter (\<lambda>s. s \<noteq> []) (segments tr)
             = filter (\<lambda>s. s \<noteq> []) (map (sample_actions events_data) [counter r3 ..< counter r'])"
          "counter r3 \<le> counter r'" "counter r' \<le> length events_data"
          "res = Some 0 \<longleftrightarrow> counter r' = length events_data"
          by blast
        have A: "trace r' = trace r @ (Flip # tr)" using tr(1) t3 by simp
        have B: "filter (\<lambda>s. s \<noteq> []) (segments (Flip # tr))
             = filter (\<lambda>s. s \<noteq> []) (map (sample_actions events_data) [counter r ..< counter r'])"
          using tr(2) c3 by simp
        have C: "counter r \<le> counter r'" using tr(3) c3 by simp
        show ?thesis
          by (rule exI [of _ "Flip # tr"]) (intro conjI A B C tr(4) tr(5))
      next
        case False
        define r3 where "r3 = (replay_advance events_data r1)\<lparr>trace := trace (replay_advance events_data r1) @ [Flip]\<rparr>"
        from Cons.prems(1) \<open>counter r < length events_data\<close> p None False
        have run: "replay_loop events_data fs r3 = (res, r', rest)"
          by (simp add: r3_def Let_def)
        note adv = replay_advance_actions [OF k a1]
        have c3: "counter r3 = Suc (counter r)"
          and t3: "trace r3 = trace r @ sample_actions events_data (counter r) @ [Flip]"
          using adv f1 by (simp_all add: r3_def)
        have b1: "counter r3 \<le> length events_data" using k f1 c3 by simp
        have b2: "at_sample events_data r3" using adv(2) by (simp add: r3_def at_sample_def)
        note ex = Cons.IH [OF run b1 b2]
        from ex obtain tr where tr: "trace r' = trace r3 @ tr"
          "filter (\<lambda>s. s \<noteq> []) (segments tr)
             = filter (\<lambda>s. s \<noteq> []) (map (sample_actions events_data) [counter r3 ..< counter r'])"
          "counter r3 \<le> counter r'" "counter r' \<le> length events_data"
          "res = Some 0 \<longleftrightarrow> counter r' = length events_data"
          by blast
        let ?x = "sample_actions events_data (counter r)"
        have lt: "counter r < counter r'" using tr(3) c3 by simp
        then have upt: "[counter r ..< counter r'] = counter r # [Suc (counter r) ..< counter r']"
          by (simp add: upt_conv_Cons)
        have A: "trace r' = trace r @ (?x @ Flip # tr)" using tr(1) t3 by simp
        have B: "filter (\<lambda>s. s \<noteq> []) (segments (?x @ Flip # tr))
             = filter (\<lambda>s. s \<noteq> []) (map (sample_actions events_data) [counter r ..< counter r'])"
          using tr(2) c3 by (simp add: segments_front [OF sample_actions_no_flip] upt)
        have C: "counter r \<le> counter r'" using lt by simp
        show ?thesis
          by (rule exI [of _ "?x @ Flip # tr"]) (intro conjI A B C tr(4) tr(5))
      qed
    qed
  qed
qed

lemma quiet_poll:
  assumes "quiet f"
  shows "\<exists>r'. replay_poll f r = (None, r') \<and> is_paused r' = next_paused (is_paused r) f"
  using assms
proof (induction f arbitrary: r)
  case Nil
  show ?case by (simp add: next_paused_def toggles_def)
next
  case (Cons e f)
  then have q: "quiet f" and e: "e \<noteq> QUIT" "e \<noteq> KEYDOWN K_q" "e \<noteq> KEYDOWN K_r"
    by (simp_all add: quiet_def)
  show ?case
  proof (cases "e = KEYDOWN K_p")
    case True
    obtain r' where "replay_poll f (r\<lparr>is_paused := \<not> is_paused r\<rparr>) = (None, r')"
      "is_paused r' = next_paused (\<not> is_paused r) f"
      using Cons.IH [OF q, of "r\<lparr>is_paused := \<not> is_paused r\<rparr>"] by auto
    then show ?thesis using True by (auto simp: next_paused_def toggles_def)
  next
    case False
    obtain r' where "replay_poll f r = (None, r')" "is_paused r' = next_paused (is_paused r) f"
      using Cons.IH [OF q, of r] by auto
    moreover have "replay_poll (e # f) r = replay_poll f r"
      using False e by (cases e) auto
    ultimately show ?thesis using False by (auto simp: next_paused_def toggles_def)
  qed
qed

lemma replay_loop_progress:
  assumes "replay_loop events_data frames r = (res, r', rest)"
    and "list_all quiet frames" and "counter r \<le> length events_data"
    and "at_sample events_data r"
  shows "counter r' = min (length events_data) (counter r + playing (is_paused r) frames)"
  using assms
proof (induction frames arbitrary: r)
  case Nil
  then show ?case by (auto split: if_splits)
next
  case (Cons f fs)
  show ?case
  proof (cases "counter r < length events_data")
    case False
    with Cons.prems show ?thesis by auto
  next
    case True
    from Cons.prems(2) have qf: "quiet f" and qs: "list_all quiet fs" by simp_all
    obtain r1 where p: "replay_poll f r = (None, r1)"
      and p1: "is_paused r1 = next_paused (is_paused r) f"
      using quiet_poll [OF qf, of r] by auto
    note f1 = replay_poll_fields [OF p]
    note a1 = at_sample_poll [OF p Cons.prems(4)]
    have k: "counter r1 < length events_data" using True f1 by simp
    show ?thesis
    proof (cases "is_paused r1")
      case paused: True
      define r3 where "r3 = r1\<lparr>trace := trace r1 @ [Flip]\<rparr>"
      from Cons.prems(1) True p paused
      have run: "replay_loop events_data fs r3 = (res, r', rest)" by (simp add: r3_def)
      have "counter r3 \<le> length events_data" "at_sample events_data r3"
        using k a1 by (simp_all add: r3_def at_sample_def)
      from Cons.IH [OF run qs this]
      show ?thesis using paused p1 f1 by (simp add: r3_def)
    next
      case playing: False
      define r3 where "r3 = (replay_advance events_data r1)\<lparr>trace := trace (replay_advance events_data r1) @ [Flip]\<rparr>"
      from Cons.prems(1) True p playing
      have run: "replay_loop events_data fs r3 = (res, r', rest)" by (simp add: r3_def Let_def)
      note adv = replay_advance_actions [OF k a1]
      have "counter r3 \<le> length events_data" "at_sample events_data r3"
        using k adv by (simp_all add: r3_def at_sample_def)
      from Cons.IH [OF run qs this]
      show ?thesis using playing p1 f1 adv by (simp add: r3_def)
    qed
  qed
qed

text \<open>
  Claim C3. Cut at the flips of the display, the trace of a playback pass consists of one
  segment for each sample shown so far, in order (and empty segments for paused frames):
  the line from the sample before, the markers, and then, for every sample after the first
  whose timestamp exceeds its predecessor's, one sleep of the difference capped at 0.1.
  So between showing two successive samples the viewer sleeps exactly that long: never
  before the first sample, never for a difference that is not positive, however the pass
  is paused in between. The pass does advance: with no window close, Q or R in the input
  the cursor is the number of frames that were not paused, up to the length of the record,
  and the pass completes as soon as there are enough of them. For the timestamps 0.0,
  0.05, 0.2 the sleeps are 0.05 and 0.1.
\<close>

theorem C3_playback_delays:
  assumes "snd (load_trial_data float_of st filepath) = Inr events_data"
    and "replay_trial float_of st filepath frames r = (res, r', rest)"
  shows "take (length (trace r)) (trace r') = trace r
    \<and> filter (\<lambda>s. s \<noteq> []) (segments (drop (length (trace r)) (trace r')))
        = filter (\<lambda>s. s \<noteq> []) (map (sample_actions events_data) [0 ..< counter r'])
    \<and> sleeps_of (trace r') = sleeps_of (trace r) @ capped_deltas (take (counter r') events_data)
    \<and> counter r' \<le> length events_data
    \<and> (res = Some 0 \<longleftrightarrow> counter r' = length events_data)
    \<and> (res = Some 0 \<longrightarrow> sleeps_of (trace r') = sleeps_of (trace r) @ capped_deltas events_data)
    \<and> (list_all quiet frames
         \<longrightarrow> counter r' = min (length events_data) (playing (is_paused r) frames)
             \<and> (res = Some 0 \<longleftrightarrow> length events_data \<le> playing (is_paused r) frames))"
proof -
  define r0 where "r0 = r\<lparr>counter := 0, previous_position := (- 1, - 1), previous_timestamp := 0,
               spacebar_events := [], trace := trace r @ [Flip]\<rparr>"
  from assms have run: "replay_loop events_data frames r0 = (res, r', rest)"
    by (simp add: replay_trial_def r0_def)
  have c0: "counter r0 \<le> length events_data" and a0: "at_sample events_data r0"
    by (simp_all add: r0_def at_sample_def marks_upto_def)
  have f0: "counter r0 = 0" "trace r0 = trace r @ [Flip]" "is_paused r0 = is_paused r"
    by (simp_all add: r0_def)
  from replay_loop_segments [OF run c0 a0] obtain tr where tr: "trace r' = trace r0 @ tr"
    "filter (\<lambda>s. s \<noteq> []) (segments tr)
       = filter (\<lambda>s. s \<noteq> []) (map (sample_actions events_data) [counter r0 ..< counter r'])"
    "counter r' \<le> length events_data" "res = Some 0 \<longleftrightarrow> counter r' = length events_data"
    by blast
  have t: "trace r' = trace r @ Flip # tr" using tr(1) f0 by simp
  have A: "take (length (trace r)) (trace r') = trace r" by (simp add: t)
  have B: "filter (\<lambda>s. s \<noteq> []) (segments (drop (length (trace r)) (trace r')))
        = filter (\<lambda>s. s \<noteq> []) (map (sample_actions events_data) [0 ..< counter r'])"
    using tr(2) f0 by (simp add: t)
  have "sleeps_of (trace r0) = sleeps_of (trace r) @ capped_deltas (take (counter r0) events_data)"
    by (simp add: f0 sleeps_of_simps capped_deltas_def)
  with replay_loop_sleeps [OF run c0, of "sleeps_of (trace r)"] f0
  have C: "sleeps_of (trace r') = sleeps_of (trace r) @ capped_deltas (take (counter r') events_data)"
    by simp
  have D: "res = Some 0 \<longrightarrow> sleeps_of (trace r') = sleeps_of (trace r) @ capped_deltas events_data"
    using C tr(4) by simp
  have E: "counter r' = min (length events_data) (playing (is_paused r) frames)
             \<and> (res = Some 0 \<longleftrightarrow> length events_data \<le> playing (is_paused r) frames)"
    if "list_all quiet frames"
    using replay_loop_progress [OF run that c0 a0] f0 tr(4) by auto
  show ?thesis
    by (intro conjI impI A B C D tr(3) tr(4) E)
qed

theorem C3_playback_delays_witness:
  "snd (load_trial_data table_float_of replay_store ''SHSA_1_1.csv'') = Inr three_samples
   \<and> list_all quiet play_through
   \<and> playing (is_paused init_replay) play_through = 4
   \<and> fst (replay_trial table_float_of replay_store ''SHSA_1_1.csv'' play_through init_replay) = Some 0
   \<and> trace (fst (snd (replay_trial table_float_of replay_store ''SHSA_1_1.csv'' play_through init_replay)))
       = [Flip, Flip, Circle (10, 10), Flip,
          Line (10, 10) (20, 20), Circle (10, 10), Sleep (1 / 20), Flip,
          Line (20, 20) (30, 30), Circle (10, 10), Circle (30, 30), Sleep (1 / 10), Flip, Flip]
   \<and> map (sample_actions three_samples) [0, 1, 2]
       = [[Circle (10, 10)],
          [Line (10, 10) (20, 20), Circle (10, 10), Sleep (1 / 20)],
          [Line (20, 20) (30, 30), Circle (10, 10), Circle (30, 30), Sleep (1 / 10)]]
   \<and> sleeps_of (trace (fst (snd (replay_trial table_float_of replay_store ''SHSA_1_1.csv''
         play_through init_replay)))) = [1 / 20, 1 / 10]"
proof -
  let ?run = "replay_trial table_float_of replay_store ''SHSA_1_1.csv'' play_through init_replay"
  have l: "snd (load_trial_data table_float_of replay_store ''SHSA_1_1.csv'') = Inr three_samples"
    by code_simp
  have q: "list_all quiet play_through" by code_simp
  have p: "playing (is_paused init_replay) play_through = 4" by code_simp
  have n: "length three_samples = 3" by code_simp
  have t: "trace (fst (snd ?run))
       = [Flip, Flip, Circle (10, 10), Flip,
          Line (10, 10) (20, 20), Circle (10, 10), Sleep (1 / 20), Flip,
          Line (20, 20) (30, 30), Circle (10, 10), Circle (30, 30), Sleep (1 / 10), Flip, Flip]"
    by code_simp
  have a: "map (sample_actions three_samples) [0, 1, 2]
       = [[Circle (10, 10)],
          [Line (10, 10) (20, 20), Circle (10, 10), Sleep (1 / 20)],
          [Line (20, 20) (30, 30), Circle (10, 10), Circle (30, 30), Sleep (1 / 10)]]"
    by code_simp
  have d: "capped_deltas three_samples = [1 / 20, 1 / 10]" by code_simp
  have i: "sleeps_of (trace init_replay) = []" by code_simp
  have r: "?run = (fst ?run, fst (snd ?run), snd (snd ?run))" by simp
  from C3_playback_delays [OF l r] q p n
  have "fst ?run = Some 0"
    and "sleeps_of (trace (fst (snd ?run))) = sleeps_of (trace init_replay) @ capped_deltas three_samples"
    by simp_all
  with l q p t a show ?thesis by (simp add: d i)
qed

lemma replay_poll_markers:
  "replay_poll evs r = (res, r') \<Longrightarrow> spacebar_events r' = spacebar_events r"
  by (induction evs r rule: replay_poll.induct) (auto split: if_splits)

lemma replay_advance_markers:
  "\<exists>ps. spacebar_events (replay_advance events_data r) = spacebar_events r @ ps"
  by (simp add: replay_advance_def Let_def split: prod.splits)

lemma replay_loop_markers_grow:
  "replay_loop events_data frames r = (res, r', rest)
   \<Longrightarrow> \<exists>ps. spacebar_events r' = spacebar_events r @ ps"
proof (induction frames arbitrary: r)
  case Nil
  then show ?case by (auto split: if_splits)
next
  case (Cons f fs)
  show ?case
  proof (cases "counter r < length events_data")
    case False
    with Cons.prems show ?thesis by auto
  next
    case True
    obtain c r1 where p: "replay_poll f r = (c, r1)" by (cases "replay_poll f r")
    note m1 = replay_poll_markers [OF p]
    show ?thesis
    proof (cases c)
      case (Some code)
      with Cons.prems True p m1 show ?thesis by auto
    next
      case None
      define r2 where "r2 = (if \<not> is_paused r1 then replay_advance events_data r1 else r1)"
      from Cons.prems True p None
      have "replay_loop events_data fs (r2\<lparr>trace := trace r2 @ [Flip]\<rparr>) = (res, r', rest)"
        by (simp add: r2_def Let_def)
      from Cons.IH [OF this] obtain ps where a: "spacebar_events r' = spacebar_events r2 @ ps"
        by auto
      have "\<exists>qs. spacebar_events r2 = spacebar_events r1 @ qs"
        using replay_advance_markers [of events_data r1] by (cases "is_paused r1") (simp_all add: r2_def)
      with a m1 show ?thesis by auto
    qed
  qed
qed

text \<open>
  Claim C7. Within a pass the marker list only grows, as the lemma above shows. The restart
  key, however, does not start the pass again: in a playback of the record of three samples
  with P in the first frame and R in the third, the replay returns 1, which the viewer's
  main loop does not act upon; the viewer goes on running with the pause flag off and the
  marker of the first sample still in place, and no record is loaded until R is pressed
  again and a trial is selected.
\<close>

theorem C7_restart_returns_without_reset:
  "viewer_keydown_r table_float_of replay_store (Some (1, 1)) play_then_restart init_replay
   = (True,
      \<lparr>is_paused = False, spacebar_events = [(10, 10)], counter = 2,
       previous_position = (20, 20), previous_timestamp = 1 / 20,
       trace = [Flip, Flip, Flip, Circle (10, 10), Flip,
                Line (10, 10) (20, 20), Circle (10, 10), Sleep (1 / 20), Flip]\<rparr>,
      [[]])"
  by code_simp

end
